theory Spec2Isabelle
  imports Complex_Main "HOL-Library.Word" "HOL-Library.Multiset"
begin

unbundle bit_operations_syntax

section \<open>Data model of the selection engine (selection.ts)\<close>

text \<open>
  JavaScript numbers are modelled as follows: pool sizes and indices are \<open>int\<close>,
  weights and random values are \<open>real\<close> (NaN and the infinities are outside the
  model), and the 32-bit integer arithmetic of the seeded generator is \<open>32 word\<close>.

  Sums, products and differences of reals are exact here, where the code computes in
  IEEE doubles and rounds each result. The two agree wherever the result is
  representable, in particular in the seeded generator (an unsigned 32-bit integer
  divided by \<open>2^32\<close>). They can differ in \<open>Math.floor(random() * n)\<close>, where the rounded
  product can reach the next integer (for \<open>n = 3\<close> at the double just below one third the
  code computes 1, exact arithmetic 0), and in the weighted walk (see \<open>pickByWeight\<close>).
  The theorems below rest on facts that hold under either arithmetic: for a random
  value in \<open>[0, 1)\<close> the index \<open>Math.floor(random() * n)\<close> lies in \<open>[0, n)\<close>, every
  strategy returns an element of the array it selects from, and at the random value 0
  every product is exactly 0.
\<close>

datatype RandomStrategy = Uniform | Weighted | Shuffle

record ShuffleState =
  queue :: "int list"
  signature :: string

text \<open>
  What \<open>pickNextIndex\<close> returns. Its declared type is \<open>number | null\<close>; an array read
  outside the array yields \<open>undefined\<close> at run time, which is kept as a value of its own.
\<close>

datatype js_result = JNull | JUndefined | JNum int

text \<open>
  The parameter \<open>random: () => number\<close> is a closure with hidden state. It is modelled
  as a step function on an explicit generator state: one call returns the value drawn
  and the state after the call.
\<close>

type_synonym 'g random_source = "'g \<Rightarrow> real \<times> 'g"

text \<open>
  The contract of the random source (section 6 of the specification): every value it
  returns lies in \<open>[0, 1)\<close>.
\<close>

definition unit_source :: "'g random_source \<Rightarrow> bool" where
  "unit_source random \<longleftrightarrow> (\<forall>g. 0 \<le> fst (random g) \<and> fst (random g) < 1)"

text \<open>
  The random sources of the test suite are constant closures such as \<open>() => 0.5\<close>;
  the generator state counts the calls made.
\<close>

definition constant_source :: "real \<Rightarrow> nat random_source" where
  "constant_source r g = (r, Suc g)"

text \<open>
  The swaps of the shuffle write into the array at an index computed from a random
  value. With a value outside \<open>[0, 1)\<close> that index can leave the array; JavaScript then
  does not raise but stores \<open>undefined\<close> in an array of numbers (and may grow it). The
  model does not follow such an array: it stops with this value.
\<close>

datatype fault = UndefinedStored

text \<open>\<open>xs[k]\<close> for an array of numbers and an integer \<open>k\<close>.\<close>

definition at_index :: "int list \<Rightarrow> int \<Rightarrow> js_result" where
  "at_index xs k = (if 0 \<le> k \<and> k < int (length xs) then JNum (xs ! nat k) else JUndefined)"

section \<open>shuffledIndices\<close>

text \<open>
  The loop \<open>for (let i = result.length - 1; i > 0; i -= 1)\<close> with body
  \<open>j = Math.floor(random() * (i + 1)); [result[i], result[j]] = [result[j], result[i]]\<close>.
  The first argument after the source is the loop variable \<open>i\<close>.
\<close>

fun shuffle_loop :: "'g random_source \<Rightarrow> nat \<Rightarrow> int list \<Rightarrow> 'g \<Rightarrow> fault + (int list \<times> 'g)" where
  "shuffle_loop random 0 result g = Inr (result, g)"
| "shuffle_loop random (Suc k) result g =
     (case random g of (r, g') \<Rightarrow>
        let i = Suc k; j = \<lfloor>r * (real i + 1)\<rfloor> in
        if 0 \<le> j \<and> j < int (length result) \<and> i < length result
        then shuffle_loop random k (result[i := result ! nat j, nat j := result ! i]) g'
        else Inl UndefinedStored)"

definition shuffledIndices :: "int \<Rightarrow> 'g random_source \<Rightarrow> 'g \<Rightarrow> fault + (int list \<times> 'g)" where
  "shuffledIndices tot random g =
     (let result = map int [0..<nat tot] in shuffle_loop random (length result - 1) result g)"

section \<open>buildCandidates\<close>

definition buildCandidates :: "int \<Rightarrow> int option \<Rightarrow> bool \<Rightarrow> int list" where
  "buildCandidates tot previousIndex avoidImmediateRepeat =
     (let all = map int [0..<nat tot] in
      if \<not> avoidImmediateRepeat \<or> previousIndex = None \<or> tot \<le> 1 then all
      else filter (\<lambda>index. Some index \<noteq> previousIndex) all)"

section \<open>pickByWeight\<close>

text \<open>\<open>weights[candidate] ?? 1\<close>: an index outside the weight array reads as 1.\<close>

definition weight_or_default :: "real list \<Rightarrow> int \<Rightarrow> real" where
  "weight_or_default weights candidate =
     (if 0 \<le> candidate \<and> candidate < int (length weights) then weights ! nat candidate else 1)"

definition safeWeights :: "int list \<Rightarrow> real list \<Rightarrow> real list" where
  "safeWeights candidates weights =
     map (\<lambda>candidate. max 0 (weight_or_default weights candidate)) candidates"

text \<open>
  The walk \<open>for (i = 0; i < candidates.length; i += 1) { cursor -= safeWeights[i];
  if (cursor <= 0) return candidates[i]; }\<close> over the candidates paired with their safe
  weights; \<open>None\<close> when the loop ends without returning.
\<close>

fun weight_walk :: "real \<Rightarrow> (int \<times> real) list \<Rightarrow> int option" where
  "weight_walk cursor [] = None"
| "weight_walk cursor ((candidate, w) # rest) =
     (let cursor' = cursor - w in
      if cursor' \<le> 0 then Some candidate else weight_walk cursor' rest)"

text \<open>
  \<open>pickByWeight\<close>. The sum of the safe weights, the product \<open>random() * totalWeight\<close>
  and the subtractions of the walk are exact here and rounded in the code, and the
  rounding can move the cursor across 0. So the code can return another candidate than
  this definition (with weights 0.1, 0.2, 0.3 at the random value 0.5 the code returns
  index 2, exact arithmetic index 1), and it can leave the loop without returning and
  take the last candidate (weights 0.4, 0.8, 0.3, 0 at the largest double below 1),
  which exact arithmetic never does for a random value below 1.
\<close>

definition pickByWeight :: "int list \<Rightarrow> real list \<Rightarrow> 'g random_source \<Rightarrow> 'g \<Rightarrow> js_result \<times> 'g" where
  "pickByWeight candidates weights random g =
     (let sw = safeWeights candidates weights;
          totalWeight = foldl (\<lambda>acc weight. acc + weight) 0 sw in
      if totalWeight \<le> 0 then
        (case random g of (r, g') \<Rightarrow>
           (at_index candidates \<lfloor>r * real (length candidates)\<rfloor>, g'))
      else
        (case random g of (r, g') \<Rightarrow>
           (case weight_walk (r * totalWeight) (zip candidates sw) of
              Some candidate \<Rightarrow> (JNum candidate, g')
            | None \<Rightarrow> (at_index candidates (int (length candidates) - 1), g'))))"

section \<open>pickNextIndex\<close>

text \<open>Lines 82 to 85: a signature other than the stored one empties the queue.\<close>

definition adopt_signature :: "ShuffleState \<Rightarrow> string \<Rightarrow> ShuffleState" where
  "adopt_signature shuffleState sig =
     (if signature shuffleState \<noteq> sig
      then shuffleState\<lparr>signature := sig, queue := []\<rparr>
      else shuffleState)"

text \<open>Lines 87 to 89: an empty queue is replaced by a fresh shuffle.\<close>

definition refill_queue :: "int \<Rightarrow> 'g random_source \<Rightarrow> ShuffleState \<Rightarrow> 'g \<Rightarrow> fault + (ShuffleState \<times> 'g)" where
  "refill_queue tot random shuffleState g =
     (if length (queue shuffleState) = 0 then
        (case shuffledIndices tot random g of
           Inl e \<Rightarrow> Inl e
         | Inr (q, g') \<Rightarrow> Inr (shuffleState\<lparr>queue := q\<rparr>, g'))
      else Inr (shuffleState, g))"

text \<open>\<open>previousIndex !== null && queue[0] === previousIndex\<close>; \<open>queue[0]\<close> of an empty
  array is \<open>undefined\<close>, which equals no number.\<close>

definition front_is_previous :: "int list \<Rightarrow> int option \<Rightarrow> bool" where
  "front_is_previous q previousIndex =
     (case previousIndex of
        None \<Rightarrow> False
      | Some p \<Rightarrow> (case q of [] \<Rightarrow> False | x # _ \<Rightarrow> x = p))"

text \<open>Lines 91 to 102: the front is swapped with a random later position.\<close>

definition swap_front :: "int option \<Rightarrow> bool \<Rightarrow> 'g random_source \<Rightarrow> ShuffleState \<Rightarrow> 'g \<Rightarrow> fault + (ShuffleState \<times> 'g)" where
  "swap_front previousIndex avoidImmediateRepeat random shuffleState g =
     (let q = queue shuffleState in
      if avoidImmediateRepeat \<and> length q > 1 \<and> front_is_previous q previousIndex then
        (case random g of (r, g') \<Rightarrow>
           let swapIndex = 1 + \<lfloor>r * (real (length q) - 1)\<rfloor> in
           if 0 \<le> swapIndex \<and> swapIndex < int (length q)
           then Inr (shuffleState\<lparr>queue := q[0 := q ! nat swapIndex, nat swapIndex := q ! 0]\<rparr>, g')
           else Inl UndefinedStored)
      else Inr (shuffleState, g))"

text \<open>Lines 104 to 117: a queue holding only the previous index is regenerated.\<close>

definition regenerate_queue :: "int \<Rightarrow> int option \<Rightarrow> bool \<Rightarrow> 'g random_source \<Rightarrow> ShuffleState \<Rightarrow> 'g \<Rightarrow> fault + (ShuffleState \<times> 'g)" where
  "regenerate_queue tot previousIndex avoidImmediateRepeat random shuffleState g =
     (if avoidImmediateRepeat \<and> length (queue shuffleState) = 1
         \<and> front_is_previous (queue shuffleState) previousIndex then
        (case shuffledIndices tot random g of
           Inl e \<Rightarrow> Inl e
         | Inr (q, g') \<Rightarrow>
             Inr (shuffleState\<lparr>queue :=
                    (if front_is_previous q previousIndex \<and> length q > 1
                     then q[0 := q ! 1, 1 := q ! 0] else q)\<rparr>, g'))
      else Inr (shuffleState, g))"

text \<open>Lines 119 and 120: \<open>queue.shift()\<close>, with \<open>null\<close> for an empty queue.\<close>

definition shift_queue :: "ShuffleState \<Rightarrow> js_result \<times> ShuffleState" where
  "shift_queue shuffleState =
     (case queue shuffleState of
        [] \<Rightarrow> (JNull, shuffleState)
      | front # rest \<Rightarrow> (JNum front, shuffleState\<lparr>queue := rest\<rparr>))"

text \<open>Lines 81 to 121, the branch \<open>strategy === 'shuffle'\<close>.\<close>

definition shuffle_branch :: "int \<Rightarrow> int option \<Rightarrow> bool \<Rightarrow> 'g random_source \<Rightarrow> ShuffleState \<Rightarrow> string \<Rightarrow> 'g \<Rightarrow> fault + (js_result \<times> ShuffleState \<times> 'g)" where
  "shuffle_branch tot previousIndex avoidImmediateRepeat random shuffleState sig g =
     (case refill_queue tot random (adopt_signature shuffleState sig) g of
        Inl e \<Rightarrow> Inl e
      | Inr (s1, g1) \<Rightarrow>
          (case swap_front previousIndex avoidImmediateRepeat random s1 g1 of
             Inl e \<Rightarrow> Inl e
           | Inr (s2, g2) \<Rightarrow>
               (case regenerate_queue tot previousIndex avoidImmediateRepeat random s2 g2 of
                  Inl e \<Rightarrow> Inl e
                | Inr (s3, g3) \<Rightarrow>
                    (case shift_queue s3 of (res, s4) \<Rightarrow> Inr (res, s4, g3)))))"

text \<open>\<open>return previousIndex\<close>, a \<open>number | null\<close>.\<close>

definition previous_result :: "int option \<Rightarrow> js_result" where
  "previous_result previousIndex = (case previousIndex of None \<Rightarrow> JNull | Some p \<Rightarrow> JNum p)"

text \<open>
  The entry point. The fields of \<open>PickNextIndexParams\<close> are the arguments, in the order
  of the interface (\<open>total\<close> and \<open>signature\<close> are written \<open>tot\<close> and \<open>sig\<close>, since
  the full names are constants already); the result carries the returned value, the
  shuffle state after the call (the source mutates it in place) and the state of the
  random source.
\<close>

definition pickNextIndex :: "int \<Rightarrow> real list \<Rightarrow> RandomStrategy \<Rightarrow> int option \<Rightarrow> bool \<Rightarrow> 'g random_source \<Rightarrow> ShuffleState \<Rightarrow> string \<Rightarrow> 'g \<Rightarrow> fault + (js_result \<times> ShuffleState \<times> 'g)" where
  "pickNextIndex tot weights strategy previousIndex avoidImmediateRepeat random shuffleState sig g =
     (if tot \<le> 0 then Inr (JNull, shuffleState, g)
      else if tot = 1 then Inr (JNum 0, shuffleState, g)
      else if strategy = Shuffle then
        shuffle_branch tot previousIndex avoidImmediateRepeat random shuffleState sig g
      else
        (let candidates = buildCandidates tot previousIndex avoidImmediateRepeat in
         if length candidates = 0 then Inr (previous_result previousIndex, shuffleState, g)
         else if strategy = Weighted then
           (case pickByWeight candidates weights random g of
              (res, g') \<Rightarrow> Inr (res, shuffleState, g'))
         else
           (case random g of
              (r, g') \<Rightarrow> Inr (at_index candidates \<lfloor>r * real (length candidates)\<rfloor>,
                             shuffleState, g'))))"

section \<open>Sequences of calls\<close>

text \<open>
  A caller keeps one shuffle state and one random source and calls the engine again and
  again, as the component and the shuffle test do. One call is described by the fields
  of \<open>PickNextIndexParams\<close> other than \<open>random\<close> and \<open>shuffleState\<close>: total, weights,
  strategy, previousIndex, avoidImmediateRepeat and signature. A caller that feeds the
  last result back as previousIndex is one such sequence.
\<close>

datatype pick_call = PickCall int "real list" RandomStrategy "int option" bool string

fun pick_calls :: "'g random_source \<Rightarrow> pick_call list \<Rightarrow> ShuffleState \<Rightarrow> 'g \<Rightarrow> fault + (js_result list \<times> ShuffleState \<times> 'g)" where
  "pick_calls random [] shuffleState g = Inr ([], shuffleState, g)"
| "pick_calls random (PickCall tot weights strategy previousIndex avoidImmediateRepeat sig # calls) shuffleState g =
     (case pickNextIndex tot weights strategy previousIndex avoidImmediateRepeat random shuffleState sig g of
        Inl e \<Rightarrow> Inl e
      | Inr (res, s1, g1) \<Rightarrow>
          (case pick_calls random calls s1 g1 of
             Inl e \<Rightarrow> Inl e
           | Inr (results, s2, g2) \<Rightarrow> Inr (res # results, s2, g2)))"

text \<open>
  The calls of one shuffle cycle: strategy shuffle, avoidImmediateRepeat false, one
  total and one signature throughout; weights and previousIndex may differ per call.
\<close>

definition shuffle_calls :: "int \<Rightarrow> string \<Rightarrow> (real list \<times> int option) list \<Rightarrow> pick_call list" where
  "shuffle_calls tot sig wps =
     map (\<lambda>(weights, previousIndex). PickCall tot weights Shuffle previousIndex False sig) wps"

text \<open>The queue invariant of the data model: indices of \<open>[0, total)\<close>, none twice.\<close>

definition queue_ok :: "int \<Rightarrow> int list \<Rightarrow> bool" where
  "queue_ok tot q \<longleftrightarrow> distinct q \<and> list_all (\<lambda>x. 0 \<le> x \<and> x < tot) q"

section \<open>The seeded generator (random.ts)\<close>

text \<open>
  A seed is a string or a number. Strings are sequences of UTF-16 code units, which is
  what \<open>charCodeAt\<close> reads. A number is finite, NaN or an infinity; only a finite one
  takes the numeric path of \<open>hashSeed\<close>.
\<close>

datatype seed = SeedString "16 word list" | SeedNumber real | SeedNaN | SeedInfinity | SeedNegInfinity

definition code_units :: "string \<Rightarrow> 16 word list" where
  "code_units s = map of_char s"

text \<open>\<open>seed >>> 0\<close> for a finite number: truncate towards zero, then reduce modulo \<open>2^32\<close>.\<close>

definition to_uint32 :: "real \<Rightarrow> 32 word" where
  "to_uint32 x = word_of_int (if 0 \<le> x then \<lfloor>x\<rfloor> else \<lceil>x\<rceil>)"

text \<open>The loop \<open>hash ^= text.charCodeAt(i); hash = Math.imul(hash, 16777619)\<close>.\<close>

fun hash_loop :: "32 word \<Rightarrow> 16 word list \<Rightarrow> 32 word" where
  "hash_loop hash [] = hash"
| "hash_loop hash (c # text) = hash_loop ((hash XOR ucast c) * 16777619) text"

text \<open>
  \<open>hashSeed\<close>: a finite number is truncated to 32 bits; everything else is hashed as
  the text \<open>String(seed)\<close>, which for the three numbers that are not finite is
  \<open>NaN\<close>, \<open>Infinity\<close> or \<open>-Infinity\<close>.
\<close>

definition hashSeed :: "seed \<Rightarrow> 32 word" where
  "hashSeed sd =
     (case sd of
        SeedNumber x \<Rightarrow> to_uint32 x
      | SeedString s \<Rightarrow> hash_loop 2166136261 s
      | SeedNaN \<Rightarrow> hash_loop 2166136261 (code_units ''NaN'')
      | SeedInfinity \<Rightarrow> hash_loop 2166136261 (code_units ''Infinity'')
      | SeedNegInfinity \<Rightarrow> hash_loop 2166136261 (code_units ''-Infinity''))"

text \<open>
  The captured variable \<open>state\<close> is a JavaScript number, and \<open>state += 0x6d2b79f5\<close> is
  an addition of doubles that is never reduced to 32 bits: the state grows, and above
  \<open>2^53\<close> the sum is rounded to 53 significant bits (to nearest, ties to even). The
  state is therefore a natural number and the rounding is written out.
\<close>

fun bit_length :: "nat \<Rightarrow> nat" where
  "bit_length n = (if n = 0 then 0 else Suc (bit_length (n div 2)))"

declare bit_length.simps [simp del]

definition round_double :: "nat \<Rightarrow> nat" where
  "round_double n =
     (if n < 2 ^ 53 then n
      else
        (let u = 2 ^ (bit_length n - 53); q = n div u; r = n mod u in
         if 2 * r < u \<or> (2 * r = u \<and> even q) then q * u else (q + 1) * u))"

text \<open>\<open>createSeededRandom\<close> returns a closure; the model returns the state it captures.\<close>

definition createSeededRandom :: "seed \<Rightarrow> nat" where
  "createSeededRandom sd =
     (let state = unat (hashSeed sd) in if state = 0 then 0x6d2b79f5 else state)"

text \<open>
  One call of the returned closure. The bit operations read the state modulo \<open>2^32\<close>
  (\<open>ToInt32\<close>), \<open>Math.imul\<close> is multiplication of 32-bit words, and \<open>>>>\<close> is the
  logical shift.
\<close>

definition seeded_random :: "nat random_source" where
  "seeded_random state =
     (let state' = round_double (state + 0x6d2b79f5);
          t0 = (word_of_nat state' :: 32 word);
          t1 = (t0 XOR drop_bit 15 t0) * (t0 OR 1);
          t2 = t1 XOR (t1 + (t1 XOR drop_bit 7 t1) * (t1 OR 61))
      in (real (unat (t2 XOR drop_bit 14 t2)) / 4294967296, state'))"

text \<open>The value returned by call number \<open>n\<close> (counted from 0) of the closure.\<close>

definition seeded_value :: "seed \<Rightarrow> nat \<Rightarrow> real" where
  "seeded_value sd n = fst (seeded_random (((\<lambda>state. snd (seeded_random state)) ^^ n) (createSeededRandom sd)))"

section \<open>Engine instances in one store\<close>

text \<open>
  The function that \<open>createSeededRandom\<close> returns has a captured variable \<open>state\<close>, and
  a \<open>ShuffleState\<close> is an object that the engine mutates in place. To speak of two
  engine instances that live side by side, both kinds of mutable cell are placed in a
  store: a closure and a shuffle state are addresses, a call reads and writes the
  cells of the instance it is given, and two instances can share a cell.
\<close>

type_synonym address = nat

record store =
  fresh_address :: address
  closure_state :: "address \<Rightarrow> nat"
  shuffle_state :: "address \<Rightarrow> ShuffleState"

definition empty_store :: store where
  "empty_store =
     \<lparr>fresh_address = 0, closure_state = (\<lambda>a. 0),
      shuffle_state = (\<lambda>a. \<lparr>queue = [], signature = ''''\<rparr>)\<rparr>"

text \<open>\<open>createSeededRandom(seed)\<close> in the store: a new closure with its own \<open>state\<close>.\<close>

definition new_seeded_random :: "seed \<Rightarrow> store \<Rightarrow> address \<times> store" where
  "new_seeded_random sd h =
     (let a = fresh_address h in
      (a, h\<lparr>fresh_address := Suc a,
            closure_state := (closure_state h)(a := createSeededRandom sd)\<rparr>))"

text \<open>An object literal \<open>{ queue: ..., signature: ... }\<close>: a new shuffle state object.\<close>

definition new_shuffle_state :: "ShuffleState \<Rightarrow> store \<Rightarrow> address \<times> store" where
  "new_shuffle_state st h =
     (let a = fresh_address h in
      (a, h\<lparr>fresh_address := Suc a, shuffle_state := (shuffle_state h)(a := st)\<rparr>))"

text \<open>
  An engine instance is what a caller keeps between calls: its random source and its
  shuffle state (in the component, \<open>createSeededRandom(seed)\<close> and \<open>shuffleStateRef\<close>).
\<close>

record engine =
  random_ref :: address
  shuffle_ref :: address

definition new_engine :: "seed \<Rightarrow> ShuffleState \<Rightarrow> store \<Rightarrow> engine \<times> store" where
  "new_engine sd st h =
     (case new_seeded_random sd h of
        (r, h1) \<Rightarrow>
          (case new_shuffle_state st h1 of
             (s, h2) \<Rightarrow> (\<lparr>random_ref = r, shuffle_ref = s\<rparr>, h2)))"

definition two_engines :: "seed \<Rightarrow> ShuffleState \<Rightarrow> store \<Rightarrow> engine \<times> engine \<times> store" where
  "two_engines sd st h =
     (case new_engine sd st h of
        (e1, h1) \<Rightarrow> (case new_engine sd st h1 of (e2, h2) \<Rightarrow> (e1, e2, h2)))"

text \<open>
  One call of \<open>pickNextIndex\<close> by an instance: the random source is the seeded closure
  at \<open>random_ref\<close>, whose state the call advances, and the shuffle state is the object
  at \<open>shuffle_ref\<close>, which the call writes.
\<close>

definition engine_call :: "engine \<Rightarrow> pick_call \<Rightarrow> store \<Rightarrow> fault + (js_result \<times> store)" where
  "engine_call e c h =
     (case c of
        PickCall tot weights strategy previousIndex avoidImmediateRepeat sig \<Rightarrow>
          (case pickNextIndex tot weights strategy previousIndex avoidImmediateRepeat seeded_random
                  (shuffle_state h (shuffle_ref e)) sig (closure_state h (random_ref e)) of
             Inl f \<Rightarrow> Inl f
           | Inr (res, st', g') \<Rightarrow>
               Inr (res, h\<lparr>closure_state := (closure_state h)(random_ref e := g'),
                           shuffle_state := (shuffle_state h)(shuffle_ref e := st')\<rparr>)))"

text \<open>
  A schedule is a sequence of calls, each made by the first or by the second of two
  instances, in any interleaving; the run records who received which result.
\<close>

datatype instance_id = First | Second

fun run_schedule :: "engine \<Rightarrow> engine \<Rightarrow> (instance_id \<times> pick_call) list \<Rightarrow> store \<Rightarrow> fault + ((instance_id \<times> js_result) list \<times> store)" where
  "run_schedule e1 e2 [] h = Inr ([], h)"
| "run_schedule e1 e2 ((i, c) # rest) h =
     (case engine_call (case i of First \<Rightarrow> e1 | Second \<Rightarrow> e2) c h of
        Inl f \<Rightarrow> Inl f
      | Inr (res, h1) \<Rightarrow>
          (case run_schedule e1 e2 rest h1 of
             Inl f \<Rightarrow> Inl f
           | Inr (out, h2) \<Rightarrow> Inr ((i, res) # out, h2)))"

text \<open>The calls an instance makes in a schedule, and the results it receives in a run.\<close>

definition calls_of :: "instance_id \<Rightarrow> (instance_id \<times> pick_call) list \<Rightarrow> pick_call list" where
  "calls_of i sched = map snd (filter (\<lambda>(j, c). j = i) sched)"

definition results_of :: "instance_id \<Rightarrow> (instance_id \<times> js_result) list \<Rightarrow> js_result list" where
  "results_of i out = map snd (filter (\<lambda>(j, res). j = i) out)"

section \<open>Properties of the shuffle\<close>

lemma floor_scaled_bounds:
  assumes "0 \<le> r" "r < 1" "0 < n"
  shows "0 \<le> \<lfloor>r * real n\<rfloor> \<and> \<lfloor>r * real n\<rfloor> < int n"
proof -
  have "0 \<le> r * real n" using assms by simp
  moreover have "r * real n < real n" using assms by simp
  ultimately show ?thesis by (simp add: floor_less_iff)
qed

lemma unit_sourceD: "unit_source random \<Longrightarrow> random g = (r, g') \<Longrightarrow> 0 \<le> r \<and> r < 1"
  unfolding unit_source_def by (metis fst_conv)

lemma shuffle_loop_mset:
  assumes "unit_source random"
  shows "i < length xs \<Longrightarrow> \<exists>ys g'. shuffle_loop random i xs g = Inr (ys, g') \<and> mset ys = mset xs"
proof (induction i arbitrary: xs g)
  case 0
  then show ?case by simp
next
  case (Suc k)
  obtain r g1 where rg: "random g = (r, g1)" by (cases "random g")
  have r: "0 \<le> r" "r < 1" using unit_sourceD[OF assms rg] by auto
  have "0 \<le> \<lfloor>r * real (Suc (Suc k))\<rfloor> \<and> \<lfloor>r * real (Suc (Suc k))\<rfloor> < int (Suc (Suc k))"
    using floor_scaled_bounds[OF r, of "Suc (Suc k)"] by simp
  moreover define j where "j = \<lfloor>r * (real (Suc k) + 1)\<rfloor>"
  ultimately have j: "0 \<le> j" "j < int (Suc (Suc k))" by (simp_all add: add.commute)
  have jl: "nat j < length xs" using j Suc.prems by linarith
  let ?xs' = "xs[Suc k := xs ! nat j, nat j := xs ! Suc k]"
  have m: "mset ?xs' = mset xs" using mset_swap[OF jl Suc.prems] by simp
  have "k < length ?xs'" using Suc.prems by simp
  from Suc.IH[OF this, of g1] obtain ys g' where
    "shuffle_loop random k ?xs' g1 = Inr (ys, g')" "mset ys = mset ?xs'" by blast
  then show ?case using rg j jl Suc.prems m by (simp add: j_def Let_def)
qed

lemma shuffledIndices_mset:
  assumes "unit_source random"
  shows "\<exists>q g'. shuffledIndices tot random g = Inr (q, g') \<and> mset q = mset (map int [0..<nat tot])"
proof (cases "nat tot")
  case 0
  then show ?thesis by (simp add: shuffledIndices_def)
next
  case (Suc m)
  then show ?thesis
    using shuffle_loop_mset[OF assms, of m "map int [0..<nat tot]" g]
    by (simp add: shuffledIndices_def)
qed

lemma mset_indices_length: "mset q = mset (map int [0..<nat tot]) \<Longrightarrow> length q = nat tot"
  using mset_eq_length by fastforce

lemma refill_queue_result:
  assumes "unit_source random"
  shows "\<exists>s g'. refill_queue tot random st g = Inr (s, g') \<and> signature s = signature st \<and>
           (queue st \<noteq> [] \<longrightarrow> s = st \<and> g' = g) \<and>
           (queue st = [] \<longrightarrow> mset (queue s) = mset (map int [0..<nat tot]))"
proof (cases "queue st = []")
  case True
  obtain q g' where "shuffledIndices tot random g = Inr (q, g')"
    "mset q = mset (map int [0..<nat tot])"
    using shuffledIndices_mset[OF assms] by blast
  then show ?thesis using True by (simp add: refill_queue_def)
next
  case False
  then show ?thesis by (simp add: refill_queue_def)
qed

lemma swap_front_result:
  assumes "unit_source random"
  shows "\<exists>s g'. swap_front previousIndex avoid random st g = Inr (s, g') \<and>
           signature s = signature st \<and> mset (queue s) = mset (queue st) \<and>
           (length (queue st) \<le> 1 \<longrightarrow> s = st \<and> g' = g)"
proof (cases "avoid \<and> length (queue st) > 1 \<and> front_is_previous (queue st) previousIndex")
  case False
  then show ?thesis by (auto simp add: swap_front_def Let_def)
next
  case True
  obtain r g1 where rg: "random g = (r, g1)" by (cases "random g")
  have r: "0 \<le> r" "r < 1" using unit_sourceD[OF assms rg] by auto
  define q where "q = queue st"
  define n where "n = length q - 1"
  have n: "0 < n" "real (length q) - 1 = real n" "length q = Suc n"
    using True by (auto simp add: n_def q_def)
  define j where "j = \<lfloor>r * (real (length q) - 1)\<rfloor>"
  have j: "0 \<le> j" "j < int n" using floor_scaled_bounds[OF r n(1)] by (simp_all add: j_def n(2))
  have jl: "nat (1 + j) < length q" "0 < length q" using j n(3) by auto
  have sw: "mset (q[0 := q ! nat (1 + j), nat (1 + j) := q ! 0]) = mset q"
    using mset_swap[OF jl] by simp
  have c: "0 \<le> 1 + j \<and> 1 + j < int (length q)" using j n(3) by auto
  have "swap_front previousIndex avoid random st g
          = Inr (st\<lparr>queue := q[0 := q ! nat (1 + j), nat (1 + j) := q ! 0]\<rparr>, g1)"
    unfolding swap_front_def Let_def q_def[symmetric] using True rg c
    by (simp add: q_def[symmetric] j_def[symmetric])
  then show ?thesis using sw True by (simp add: q_def)
qed

lemma swap_front_shape:
  assumes "unit_source random"
  shows "\<exists>s g'. swap_front previousIndex avoid random st g = Inr (s, g') \<and>
           signature s = signature st \<and>
           (length (queue st) \<le> 1 \<longrightarrow> s = st) \<and>
           (queue s = queue st \<or>
            (\<exists>k. 0 < k \<and> k < length (queue st) \<and>
                 queue s = (queue st)[0 := queue st ! k, k := queue st ! 0]))"
proof (cases "avoid \<and> length (queue st) > 1 \<and> front_is_previous (queue st) previousIndex")
  case False
  then show ?thesis by (auto simp add: swap_front_def Let_def)
next
  case True
  obtain r g1 where rg: "random g = (r, g1)" by (cases "random g")
  have r: "0 \<le> r" "r < 1" using unit_sourceD[OF assms rg] by auto
  define q where "q = queue st"
  define n where "n = length q - 1"
  have n: "0 < n" "real (length q) - 1 = real n" "length q = Suc n"
    using True by (auto simp add: n_def q_def)
  define j where "j = \<lfloor>r * (real (length q) - 1)\<rfloor>"
  have j: "0 \<le> j" "j < int n" using floor_scaled_bounds[OF r n(1)] by (simp_all add: j_def n(2))
  define k where "k = nat (1 + j)"
  have k: "0 < k" "k < length q" using j n(3) by (auto simp add: k_def)
  have c: "0 \<le> 1 + j \<and> 1 + j < int (length q)" using j n(3) by auto
  have "swap_front previousIndex avoid random st g
          = Inr (st\<lparr>queue := q[0 := q ! k, k := q ! 0]\<rparr>, g1)"
    unfolding swap_front_def Let_def q_def[symmetric] k_def using True rg c
    by (simp add: q_def[symmetric] j_def[symmetric])
  then show ?thesis using k True by (auto simp add: q_def)
qed

lemma regenerate_queue_result:
  assumes "unit_source random"
  shows "\<exists>s g'. regenerate_queue tot previousIndex avoid random st g = Inr (s, g') \<and>
           signature s = signature st \<and>
           (if avoid \<and> length (queue st) = 1 \<and> front_is_previous (queue st) previousIndex
            then mset (queue s) = mset (map int [0..<nat tot])
            else s = st \<and> g' = g)"
proof (cases "avoid \<and> length (queue st) = 1 \<and> front_is_previous (queue st) previousIndex")
  case False
  then show ?thesis by (auto simp add: regenerate_queue_def)
next
  case True
  obtain q g' where q: "shuffledIndices tot random g = Inr (q, g')"
    "mset q = mset (map int [0..<nat tot])"
    using shuffledIndices_mset[OF assms] by blast
  have "length q > 1 \<Longrightarrow> mset (q[0 := q ! 1, 1 := q ! 0]) = mset q"
    using mset_swap[of 1 q 0] by (cases q) auto
  then show ?thesis using True q by (simp add: regenerate_queue_def)
qed

lemma shift_queue_nonempty:
  "queue st \<noteq> [] \<Longrightarrow> shift_queue st = (JNum (hd (queue st)), st\<lparr>queue := tl (queue st)\<rparr>)"
  by (cases "queue st") (simp_all add: shift_queue_def)

lemma shuffle_branch_result:
  assumes "unit_source random" and "2 \<le> tot"
  shows "\<exists>q g'. shuffle_branch tot previousIndex avoid random st sig g
             = Inr (JNum (hd q), \<lparr>queue = tl q, signature = sig\<rparr>, g') \<and> q \<noteq> [] \<and>
           ((mset q = mset (map int [0..<nat tot]) \<and>
               (signature st \<noteq> sig \<or> queue st = [] \<or>
                (avoid \<and> length (queue st) = 1 \<and> front_is_previous (queue st) previousIndex)))
            \<or> (mset q = mset (queue st) \<and> signature st = sig \<and>
                \<not> (avoid \<and> length (queue st) = 1 \<and> front_is_previous (queue st) previousIndex)))"
proof -
  define s0 where "s0 = adopt_signature st sig"
  have s0: "signature s0 = sig" "signature st = sig \<Longrightarrow> s0 = st"
    "signature st \<noteq> sig \<Longrightarrow> queue s0 = []"
    by (simp_all add: s0_def adopt_signature_def)
  obtain s1 g1 where s1: "refill_queue tot random s0 g = Inr (s1, g1)" "signature s1 = signature s0"
    "queue s0 \<noteq> [] \<longrightarrow> s1 = s0 \<and> g1 = g"
    "queue s0 = [] \<longrightarrow> mset (queue s1) = mset (map int [0..<nat tot])"
    using refill_queue_result[OF assms(1), of tot s0 g] by blast
  obtain s2 g2 where s2: "swap_front previousIndex avoid random s1 g1 = Inr (s2, g2)"
    "signature s2 = signature s1" "mset (queue s2) = mset (queue s1)"
    "length (queue s1) \<le> 1 \<longrightarrow> s2 = s1 \<and> g2 = g1"
    using swap_front_result[OF assms(1), of previousIndex avoid s1 g1] by blast
  obtain s3 g3 where s3: "regenerate_queue tot previousIndex avoid random s2 g2 = Inr (s3, g3)"
    "signature s3 = signature s2"
    "(if avoid \<and> length (queue s2) = 1 \<and> front_is_previous (queue s2) previousIndex
      then mset (queue s3) = mset (map int [0..<nat tot])
      else s3 = s2 \<and> g3 = g2)"
    using regenerate_queue_result[OF assms(1), of tot previousIndex avoid s2 g2] by blast
  have len1: "queue s0 = [] \<Longrightarrow> length (queue s1) = nat tot"
    using s1(4) mset_indices_length by blast
  have ne1: "queue s1 \<noteq> []" using s1(3) len1 assms(2) by (cases "queue s0 = []") auto
  have len2: "length (queue s2) = length (queue s1)" using s2(3) mset_eq_length by blast
  have ne3: "queue s3 \<noteq> []"
  proof (cases "avoid \<and> length (queue s2) = 1 \<and> front_is_previous (queue s2) previousIndex")
    case True
    then have "length (queue s3) = nat tot" using s3(3) mset_indices_length by simp
    then show ?thesis using assms(2) by auto
  next
    case False
    then show ?thesis using s3(3) ne1 len2 by auto
  qed
  have sig3: "signature s3 = sig" using s0(1) s1(2) s2(2) s3(2) by simp
  have res: "shuffle_branch tot previousIndex avoid random st sig g
      = Inr (JNum (hd (queue s3)), \<lparr>queue = tl (queue s3), signature = sig\<rparr>, g3)"
    using s1(1) s2(1) s3(1) shift_queue_nonempty[OF ne3] sig3
    by (simp add: shuffle_branch_def s0_def[symmetric])
  have "(mset (queue s3) = mset (map int [0..<nat tot]) \<and>
               (signature st \<noteq> sig \<or> queue st = [] \<or>
                (avoid \<and> length (queue st) = 1 \<and> front_is_previous (queue st) previousIndex)))
            \<or> (mset (queue s3) = mset (queue st) \<and> signature st = sig \<and>
                \<not> (avoid \<and> length (queue st) = 1 \<and> front_is_previous (queue st) previousIndex))"
  proof (cases "avoid \<and> length (queue s2) = 1 \<and> front_is_previous (queue s2) previousIndex")
    case True
    then have m3: "mset (queue s3) = mset (map int [0..<nat tot])" using s3(3) by simp
    have l1: "length (queue s1) = 1" using True len2 by simp
    then have "queue s0 \<noteq> []" using len1 assms(2) by auto
    then have "s1 = s0" "signature st = sig" using s1(3) s0(3) by auto
    then have "s2 = st" using s2(4) l1 s0(2) by simp
    then show ?thesis using True m3 by simp
  next
    case False
    then have e: "s3 = s2" using s3(3) by simp
    show ?thesis
    proof (cases "queue s0 = []")
      case True
      then have "mset (queue s3) = mset (map int [0..<nat tot])" using e s2(3) s1(4) by simp
      moreover have "signature st \<noteq> sig \<or> queue st = []" using True s0(2) by auto
      ultimately show ?thesis by simp
    next
      case ne: False
      then have a: "s1 = s0" "signature st = sig" "s0 = st" using s1(3) s0(2,3) by auto
      then have m: "mset (queue s3) = mset (queue st)" using e s2(3) by simp
      have "\<not> (avoid \<and> length (queue st) = 1 \<and> front_is_previous (queue st) previousIndex)"
      proof
        assume c: "avoid \<and> length (queue st) = 1 \<and> front_is_previous (queue st) previousIndex"
        then have "s2 = st" using s2(4) a by simp
        then show False using False c by simp
      qed
      then show ?thesis using m a by simp
    qed
  qed
  then show ?thesis using res ne3 by blast
qed

lemma shuffle_branch_kept:
  assumes "unit_source random" and "signature st = sig" and "queue st \<noteq> []"
    and "\<not> (avoid \<and> length (queue st) = 1 \<and> front_is_previous (queue st) previousIndex)"
  shows "\<exists>q g'. shuffle_branch tot previousIndex avoid random st sig g
             = Inr (JNum (hd q), \<lparr>queue = tl q, signature = sig\<rparr>, g') \<and> q \<noteq> [] \<and>
           (q = queue st \<or>
            (\<exists>k. 0 < k \<and> k < length (queue st) \<and>
                 q = (queue st)[0 := queue st ! k, k := queue st ! 0]))"
proof -
  obtain s2 g2 where s2: "swap_front previousIndex avoid random st g = Inr (s2, g2)"
    "signature s2 = signature st" "length (queue st) \<le> 1 \<longrightarrow> s2 = st"
    "queue s2 = queue st \<or>
       (\<exists>k. 0 < k \<and> k < length (queue st) \<and>
            queue s2 = (queue st)[0 := queue st ! k, k := queue st ! 0])"
    using swap_front_shape[OF assms(1), of previousIndex avoid st g] by blast
  have len: "length (queue s2) = length (queue st)" using s2(4) by auto
  then have ne: "queue s2 \<noteq> []" using assms(3) by auto
  have noregen: "\<not> (avoid \<and> length (queue s2) = 1 \<and> front_is_previous (queue s2) previousIndex)"
  proof
    assume c: "avoid \<and> length (queue s2) = 1 \<and> front_is_previous (queue s2) previousIndex"
    then have "s2 = st" using s2(3) len by simp
    then show False using c assms(4) by simp
  qed
  have "shuffle_branch tot previousIndex avoid random st sig g
      = Inr (JNum (hd (queue s2)), \<lparr>queue = tl (queue s2), signature = sig\<rparr>, g2)"
    using assms(2,3) s2(1,2) noregen shift_queue_nonempty[OF ne]
    by (auto simp add: shuffle_branch_def adopt_signature_def refill_queue_def regenerate_queue_def)
  then show ?thesis using ne s2(4) by blast
qed

lemma shuffle_pop:
  assumes "2 \<le> tot" and "queue st \<noteq> []" and "signature st = sig"
  shows "pickNextIndex tot weights Shuffle previousIndex False random st sig g
           = Inr (JNum (hd (queue st)), st\<lparr>queue := tl (queue st)\<rparr>, g)"
  using assms shift_queue_nonempty[OF assms(2)]
  by (simp add: pickNextIndex_def shuffle_branch_def adopt_signature_def refill_queue_def
      swap_front_def regenerate_queue_def)

lemma pick_calls_pop:
  assumes "2 \<le> tot"
  shows "length wps \<le> length (queue st) \<Longrightarrow> signature st = sig \<Longrightarrow>
         pick_calls random (shuffle_calls tot sig wps) st g
           = Inr (map JNum (take (length wps) (queue st)),
                  st\<lparr>queue := drop (length wps) (queue st)\<rparr>, g)"
proof (induction wps arbitrary: st)
  case Nil
  then show ?case by (simp add: shuffle_calls_def)
next
  case (Cons wp wps)
  obtain w p where wp: "wp = (w, p)" by (cases wp)
  from Cons.prems obtain x xs where q: "queue st = x # xs" by (cases "queue st") auto
  let ?st1 = "st\<lparr>queue := xs\<rparr>"
  have step: "pickNextIndex tot w Shuffle p False random st sig g = Inr (JNum x, ?st1, g)"
    using shuffle_pop[OF assms, of st sig w p random g] q Cons.prems(2) by simp
  have "length wps \<le> length (queue ?st1)" "signature ?st1 = sig"
    using Cons.prems q by simp_all
  from Cons.IH[OF this] have
    "pick_calls random (shuffle_calls tot sig wps) ?st1 g
       = Inr (map JNum (take (length wps) xs), st\<lparr>queue := drop (length wps) xs\<rparr>, g)"
    by simp
  then show ?case using step q wp
    by (simp add: shuffle_calls_def)
qed

lemma shuffle_first:
  assumes "unit_source random" and "2 \<le> tot" and "queue st = []"
  shows "\<exists>q g'. pickNextIndex tot weights Shuffle previousIndex False random st sig g
             = Inr (JNum (hd q), \<lparr>queue = tl q, signature = sig\<rparr>, g')
           \<and> mset q = mset (map int [0..<nat tot])"
proof -
  obtain q g' where q: "shuffle_branch tot previousIndex False random st sig g
      = Inr (JNum (hd q), \<lparr>queue = tl q, signature = sig\<rparr>, g')"
    "mset q = mset (map int [0..<nat tot]) \<or> mset q = mset (queue st)" "q \<noteq> []"
    using shuffle_branch_result[OF assms(1,2), of previousIndex False st sig g] by blast
  then have m: "mset q = mset (map int [0..<nat tot])" using assms(3) by auto
  have "pickNextIndex tot weights Shuffle previousIndex False random st sig g
      = Inr (JNum (hd q), \<lparr>queue = tl q, signature = sig\<rparr>, g')"
    using q(1) assms(2) by (simp add: pickNextIndex_def)
  then show ?thesis using m by blast
qed

lemma queue_ok_indices: "queue_ok tot (map int [0..<nat tot])"
  by (auto simp add: queue_ok_def list_all_iff distinct_map inj_on_def)

lemma queue_ok_mset: "mset q = mset q' \<Longrightarrow> queue_ok tot q' \<Longrightarrow> queue_ok tot q"
  unfolding queue_ok_def list_all_iff
  by (metis mset_eq_setD mset_eq_imp_distinct_iff)

lemma queue_ok_tl: "queue_ok tot q \<Longrightarrow> queue_ok tot (tl q)"
  unfolding queue_ok_def list_all_iff
  by (metis distinct_tl list.set_sel(2) tl_Nil)

section \<open>Properties of the candidate strategies\<close>

lemma at_index_in_range:
  "0 \<le> k \<Longrightarrow> k < int (length xs) \<Longrightarrow> \<exists>c. at_index xs k = JNum c \<and> c \<in> set xs"
  by (simp add: at_index_def)

lemma buildCandidates_nonempty: "2 \<le> tot \<Longrightarrow> buildCandidates tot previousIndex avoid \<noteq> []"
proof -
  assume t: "2 \<le> tot"
  have m: "int 0 \<in> set (map int [0..<nat tot])" "int 1 \<in> set (map int [0..<nat tot])"
    using t by auto
  have "\<exists>x \<in> set (map int [0..<nat tot]). Some x \<noteq> previousIndex"
  proof (cases "previousIndex = Some 0")
    case True
    then show ?thesis using m(2) by auto
  next
    case False
    then show ?thesis using m(1) by auto
  qed
  then have "filter (\<lambda>index. Some index \<noteq> previousIndex) (map int [0..<nat tot]) \<noteq> []"
    by (simp add: filter_empty_conv)
  moreover have "map int [0..<nat tot] \<noteq> []" using t by simp
  ultimately show ?thesis by (simp add: buildCandidates_def Let_def)
qed

lemma buildCandidates_avoids:
  "1 < tot \<Longrightarrow> p \<notin> set (buildCandidates tot (Some p) True)"
  by (simp add: buildCandidates_def)

lemma weight_walk_member: "weight_walk cursor zs = Some c \<Longrightarrow> c \<in> fst ` set zs"
  by (induction cursor zs rule: weight_walk.induct) (auto simp add: Let_def split: if_splits)

lemma pickByWeight_member:
  assumes "0 \<le> fst (random g)" "fst (random g) < 1" "candidates \<noteq> []"
  shows "\<exists>c. pickByWeight candidates weights random g = (JNum c, snd (random g)) \<and> c \<in> set candidates"
proof -
  obtain r g1 where rg: "random g = (r, g1)" by (cases "random g")
  have r: "0 \<le> r" "r < 1" using assms rg by auto
  define sw where "sw = safeWeights candidates weights"
  define totalWeight where "totalWeight = foldl (\<lambda>acc weight. acc + weight) 0 sw"
  have len: "0 < length candidates" using assms(3) by simp
  have fl: "0 \<le> \<lfloor>r * real (length candidates)\<rfloor>" "\<lfloor>r * real (length candidates)\<rfloor> < int (length candidates)"
    using floor_scaled_bounds[OF r len] by auto
  have last: "0 \<le> int (length candidates) - 1" "int (length candidates) - 1 < int (length candidates)"
    using len by auto
  show ?thesis
  proof (cases "totalWeight \<le> 0")
    case True
    then show ?thesis using at_index_in_range[OF fl] rg
      by (simp add: pickByWeight_def sw_def[symmetric] totalWeight_def[symmetric])
  next
    case False
    show ?thesis
    proof (cases "weight_walk (r * totalWeight) (zip candidates sw)")
      case None
      then show ?thesis using at_index_in_range[OF last] rg False
        by (simp add: pickByWeight_def sw_def[symmetric] totalWeight_def[symmetric])
    next
      case (Some c)
      then have "c \<in> set candidates" using weight_walk_member[OF Some] by (auto dest: set_zip_leftD)
      then show ?thesis using Some rg False
        by (simp add: pickByWeight_def sw_def[symmetric] totalWeight_def[symmetric])
    qed
  qed
qed

lemma pick_from_candidates:
  assumes "0 \<le> fst (random g)" "fst (random g) < 1" "2 \<le> tot" "strategy \<noteq> Shuffle"
  shows "\<exists>c. pickNextIndex tot weights strategy previousIndex avoid random st sig g
               = Inr (JNum c, st, snd (random g))
             \<and> c \<in> set (buildCandidates tot previousIndex avoid)"
proof -
  define candidates where "candidates = buildCandidates tot previousIndex avoid"
  have ne: "candidates \<noteq> []" using buildCandidates_nonempty[OF assms(3)] by (simp add: candidates_def)
  obtain r g1 where rg: "random g = (r, g1)" by (cases "random g")
  have r: "0 \<le> r" "r < 1" using assms rg by auto
  have len: "0 < length candidates" using ne by simp
  show ?thesis
  proof (cases "strategy = Weighted")
    case True
    obtain c where "pickByWeight candidates weights random g = (JNum c, snd (random g))"
      "c \<in> set candidates"
      using pickByWeight_member[of random g candidates weights] assms(1,2) ne by blast
    then show ?thesis using True assms(3) ne
      by (simp add: pickNextIndex_def candidates_def[symmetric])
  next
    case False
    obtain c where "at_index candidates \<lfloor>r * real (length candidates)\<rfloor> = JNum c"
      "c \<in> set candidates"
      using at_index_in_range floor_scaled_bounds[OF r len] by blast
    then show ?thesis using False assms(3,4) ne rg
      by (simp add: pickNextIndex_def candidates_def[symmetric])
  qed
qed

lemma pick_leaves_state:
  assumes "strategy \<noteq> Shuffle \<or> tot \<le> 1"
  shows "\<exists>res g'. pickNextIndex tot weights strategy previousIndex avoid random st sig g
           = Inr (res, st, g')"
proof (cases "tot \<le> 1")
  case True
  then show ?thesis by (simp add: pickNextIndex_def)
next
  case False
  then have "strategy \<noteq> Shuffle" using assms by simp
  then show ?thesis using False
    by (simp add: pickNextIndex_def Let_def split: prod.splits)
qed

lemma pick_returns:
  assumes "unit_source random"
  shows "\<exists>res st' g'. pickNextIndex tot weights strategy previousIndex avoid random st sig g
           = Inr (res, st', g')"
proof -
  consider "tot \<le> 1 \<or> strategy \<noteq> Shuffle" | "2 \<le> tot" "strategy = Shuffle" by linarith
  then show ?thesis
  proof cases
    case 1
    then show ?thesis
      using pick_leaves_state[of strategy tot weights previousIndex avoid random st sig g] by blast
  next
    case 2
    obtain q g' where "shuffle_branch tot previousIndex avoid random st sig g
        = Inr (JNum (hd q), \<lparr>queue = tl q, signature = sig\<rparr>, g')"
      using shuffle_branch_result[OF assms 2(1), of previousIndex avoid st sig g] by blast
    then show ?thesis using 2 by (simp add: pickNextIndex_def)
  qed
qed

text \<open>
  The loop of the walk returns a candidate of weight 0 only when the cursor is not
  positive on entry: a positive cursor is unchanged by subtracting 0.
\<close>

lemma weight_walk_positive:
  "weight_walk cursor zs = Some c \<Longrightarrow> 0 < cursor \<Longrightarrow> \<exists>w. (c, w) \<in> set zs \<and> 0 < w"
proof (induction cursor zs rule: weight_walk.induct)
  case (1 cursor)
  then show ?case by simp
next
  case (2 cursor candidate w rest)
  show ?case
  proof (cases "cursor - w \<le> 0")
    case True
    have "c = candidate" using True "2.prems"(1) by (simp add: Let_def)
    moreover have "0 < w" using True "2.prems"(2) by linarith
    ultimately show ?thesis by auto
  next
    case False
    have "weight_walk (cursor - w) rest = Some c" using False "2.prems"(1) by (simp add: Let_def)
    moreover have "0 < cursor - w" using False by linarith
    ultimately have "weight_walk (cursor - w) rest = Some c" "0 < cursor - w" by simp_all
    then obtain w' where "(c, w') \<in> set rest" "0 < w'" using "2.IH"[OF refl False] by blast
    then show ?thesis by auto
  qed
qed

section \<open>Properties of the seeded generator\<close>

lemma uint32_fraction: "0 \<le> real (unat w) / 4294967296 \<and> real (unat w) / 4294967296 < 1"
  for w :: "32 word"
proof -
  have "unat w < 2 ^ 32" using unsigned_less[of w] by simp
  then have "real (unat w) < real (2 ^ 32)" by (simp only: of_nat_less_iff)
  then have "real (unat w) / 4294967296 < 1" by simp
  moreover have "0 \<le> real (unat w)" by (rule of_nat_0_le_iff)
  then have "0 \<le> real (unat w) / 4294967296" by (rule divide_nonneg_nonneg) simp
  ultimately show ?thesis by (rule conjI[rotated])
qed

lemma seeded_random_unit: "0 \<le> fst (seeded_random s) \<and> fst (seeded_random s) < 1"
  unfolding seeded_random_def Let_def fst_conv by (rule uint32_fraction)

lemma seeded_random_unit_source: "unit_source seeded_random"
  unfolding unit_source_def using seeded_random_unit by blast

section \<open>Properties of instances in one store\<close>

lemma engine_call_local:
  "\<exists>res h'. engine_call e (PickCall tot weights strategy previousIndex avoid sig) h = Inr (res, h')
     \<and> pickNextIndex tot weights strategy previousIndex avoid seeded_random
          (shuffle_state h (shuffle_ref e)) sig (closure_state h (random_ref e))
        = Inr (res, shuffle_state h' (shuffle_ref e), closure_state h' (random_ref e))
     \<and> (\<forall>a. a \<noteq> random_ref e \<longrightarrow> closure_state h' a = closure_state h a)
     \<and> (\<forall>a. a \<noteq> shuffle_ref e \<longrightarrow> shuffle_state h' a = shuffle_state h a)"
proof -
  obtain res st' g' where "pickNextIndex tot weights strategy previousIndex avoid seeded_random
      (shuffle_state h (shuffle_ref e)) sig (closure_state h (random_ref e)) = Inr (res, st', g')"
    using pick_returns[OF seeded_random_unit_source] by blast
  then show ?thesis by (simp add: engine_call_def)
qed

lemma run_schedule_local:
  assumes "random_ref e1 \<noteq> random_ref e2" and "shuffle_ref e1 \<noteq> shuffle_ref e2"
  shows "\<exists>out h'. run_schedule e1 e2 sched h = Inr (out, h')
     \<and> pick_calls seeded_random (calls_of First sched)
          (shuffle_state h (shuffle_ref e1)) (closure_state h (random_ref e1))
        = Inr (results_of First out, shuffle_state h' (shuffle_ref e1), closure_state h' (random_ref e1))
     \<and> pick_calls seeded_random (calls_of Second sched)
          (shuffle_state h (shuffle_ref e2)) (closure_state h (random_ref e2))
        = Inr (results_of Second out, shuffle_state h' (shuffle_ref e2), closure_state h' (random_ref e2))"
proof (induction sched arbitrary: h)
  case Nil
  then show ?case by (simp add: calls_of_def results_of_def)
next
  case (Cons step rest)
  obtain i c where step: "step = (i, c)" by (cases step)
  obtain tot weights strategy previousIndex avoid sig
    where c: "c = PickCall tot weights strategy previousIndex avoid sig" by (cases c)
  define e where "e = (case i of First \<Rightarrow> e1 | Second \<Rightarrow> e2)"
  obtain res h1 where call: "engine_call e c h = Inr (res, h1)"
    "pickNextIndex tot weights strategy previousIndex avoid seeded_random
        (shuffle_state h (shuffle_ref e)) sig (closure_state h (random_ref e))
      = Inr (res, shuffle_state h1 (shuffle_ref e), closure_state h1 (random_ref e))"
    "\<forall>a. a \<noteq> random_ref e \<longrightarrow> closure_state h1 a = closure_state h a"
    "\<forall>a. a \<noteq> shuffle_ref e \<longrightarrow> shuffle_state h1 a = shuffle_state h a"
    using engine_call_local[of e tot weights strategy previousIndex avoid sig h] c by blast
  obtain out h' where rest: "run_schedule e1 e2 rest h1 = Inr (out, h')"
    "pick_calls seeded_random (calls_of First rest)
        (shuffle_state h1 (shuffle_ref e1)) (closure_state h1 (random_ref e1))
      = Inr (results_of First out, shuffle_state h' (shuffle_ref e1), closure_state h' (random_ref e1))"
    "pick_calls seeded_random (calls_of Second rest)
        (shuffle_state h1 (shuffle_ref e2)) (closure_state h1 (random_ref e2))
      = Inr (results_of Second out, shuffle_state h' (shuffle_ref e2), closure_state h' (random_ref e2))"
    using Cons.IH[of h1] by blast
  have run: "run_schedule e1 e2 (step # rest) h = Inr ((i, res) # out, h')"
    using call(1) rest(1) by (simp add: step e_def)
  show ?case
  proof (cases i)
    case First
    then have e: "e = e1" by (simp add: e_def)
    have other: "shuffle_state h1 (shuffle_ref e2) = shuffle_state h (shuffle_ref e2)"
      "closure_state h1 (random_ref e2) = closure_state h (random_ref e2)"
      using call(3,4) assms e by auto
    have "pick_calls seeded_random (calls_of First (step # rest))
        (shuffle_state h (shuffle_ref e1)) (closure_state h (random_ref e1))
      = Inr (results_of First ((i, res) # out), shuffle_state h' (shuffle_ref e1),
             closure_state h' (random_ref e1))"
      using call(2) rest(2) First e by (simp add: calls_of_def results_of_def step c)
    moreover have "pick_calls seeded_random (calls_of Second (step # rest))
        (shuffle_state h (shuffle_ref e2)) (closure_state h (random_ref e2))
      = Inr (results_of Second ((i, res) # out), shuffle_state h' (shuffle_ref e2),
             closure_state h' (random_ref e2))"
      using rest(3) other First by (simp add: calls_of_def results_of_def step)
    ultimately show ?thesis using run by simp
  next
    case Second
    then have e: "e = e2" by (simp add: e_def)
    have other: "shuffle_state h1 (shuffle_ref e1) = shuffle_state h (shuffle_ref e1)"
      "closure_state h1 (random_ref e1) = closure_state h (random_ref e1)"
      using call(3,4) assms e by auto
    have "pick_calls seeded_random (calls_of Second (step # rest))
        (shuffle_state h (shuffle_ref e2)) (closure_state h (random_ref e2))
      = Inr (results_of Second ((i, res) # out), shuffle_state h' (shuffle_ref e2),
             closure_state h' (random_ref e2))"
      using call(2) rest(3) Second e by (simp add: calls_of_def results_of_def step c)
    moreover have "pick_calls seeded_random (calls_of First (step # rest))
        (shuffle_state h (shuffle_ref e1)) (closure_state h (random_ref e1))
      = Inr (results_of First ((i, res) # out), shuffle_state h' (shuffle_ref e1),
             closure_state h' (random_ref e1))"
      using rest(2) other Second by (simp add: calls_of_def results_of_def step)
    ultimately show ?thesis using run by simp
  qed
qed

lemma two_engines_cells:
  assumes "two_engines sd st h0 = (e1, e2, h)"
  shows "random_ref e1 \<noteq> random_ref e2" and "shuffle_ref e1 \<noteq> shuffle_ref e2"
    and "closure_state h (random_ref e1) = createSeededRandom sd"
    and "closure_state h (random_ref e2) = createSeededRandom sd"
    and "shuffle_state h (shuffle_ref e1) = st"
    and "shuffle_state h (shuffle_ref e2) = st"
  using assms
  by (auto simp add: two_engines_def new_engine_def new_seeded_random_def new_shuffle_state_def
      Let_def)

section \<open>The scenarios of the test suite\<close>

text \<open>
  The four tests of the repository, evaluated on the model: no sources; weighted
  selection with weights \<open>[0, 0, 4]\<close> at the random value 0.2; repeat avoidance with two
  sources; three shuffle calls at the random value 0.1.
\<close>

lemma test_no_sources:
  "pickNextIndex 0 [] Uniform None True (constant_source (1/2))
       \<lparr>queue = [], signature = ''''\<rparr> ''a'' 0
     = Inr (JNull, \<lparr>queue = [], signature = ''''\<rparr>, 0)"
  by (simp add: pickNextIndex_def)

lemma test_weighted_selection:
  "pickNextIndex 3 [0, 0, 4] Weighted None True (constant_source (1/5))
       \<lparr>queue = [], signature = ''''\<rparr> ''a'' 0
     = Inr (JNum 2, \<lparr>queue = [], signature = ''''\<rparr>, 1)"
  by (simp add: pickNextIndex_def buildCandidates_def pickByWeight_def safeWeights_def
      weight_or_default_def constant_source_def upt_rec)

lemma test_avoids_immediate_repeat:
  "pickNextIndex 2 [1, 1] Uniform (Some 0) True (constant_source 0)
       \<lparr>queue = [], signature = ''''\<rparr> ''a'' 0
     = Inr (JNum 1, \<lparr>queue = [], signature = ''''\<rparr>, 1)"
  by (simp add: pickNextIndex_def buildCandidates_def at_index_def constant_source_def upt_rec)

lemma test_shuffle_walk:
  "pick_calls (constant_source (1/10))
       [PickCall 3 [1, 1, 1] Shuffle None False ''x'',
        PickCall 3 [1, 1, 1] Shuffle (Some 1) False ''x'',
        PickCall 3 [1, 1, 1] Shuffle (Some 2) False ''x'']
       \<lparr>queue = [], signature = ''''\<rparr> 0
     = Inr ([JNum 1, JNum 2, JNum 0], \<lparr>queue = [], signature = ''x''\<rparr>, 2)"
  by (simp add: pickNextIndex_def shuffle_branch_def adopt_signature_def refill_queue_def
      swap_front_def regenerate_queue_def shift_queue_def shuffledIndices_def
      constant_source_def upt_rec)

text \<open>
  The seeded generator on two seeds: the state derived from the text \<open>demo-seed\<close>, and
  the first value of the stream for the seed 1.
\<close>

lemma seed_of_text:
  "createSeededRandom (SeedString (code_units ''demo-seed'')) = 1755339648"
  by (simp add: createSeededRandom_def hashSeed_def code_units_def)

lemma first_value_of_seed_one:
  "seeded_value (SeedNumber 1) 0 = 2693262067 / 4294967296"
  by (simp add: seeded_value_def seeded_random_def round_double_def createSeededRandom_def
      hashSeed_def to_uint32_def)

section \<open>Weighted selection and zero weights\<close>

text \<open>
  Claim C1 says that the weighted strategy never returns an eligible index of effective
  weight 0 while some eligible index has positive weight, for every random value in
  \<open>[0, 1)\<close>. The code does return one at the random value 0: with total 3 and weights
  \<open>[0, 0, 4]\<close> the cursor starts at \<open>0 * 4 = 0\<close>, the first step subtracts weight 0, and
  the test \<open>cursor <= 0\<close> succeeds at index 0, although index 2 is eligible with weight 4.
  Every operation of this run is exact in doubles as well.
\<close>

theorem weighted_returns_zero_weight_at_zero:
  "pickNextIndex 3 [0, 0, 4] Weighted None True (constant_source 0)
       \<lparr>queue = [], signature = ''''\<rparr> ''a'' 0
     = Inr (JNum 0, \<lparr>queue = [], signature = ''''\<rparr>, 1)
   \<and> max 0 (weight_or_default [0, 0, 4] 0) = 0
   \<and> max 0 (weight_or_default [0, 0, 4] 2) = 4"
  by (simp add: pickNextIndex_def buildCandidates_def pickByWeight_def safeWeights_def
      weight_or_default_def constant_source_def upt_rec)

text \<open>All three indices are eligible in that call, since there is no previous index.\<close>

lemma all_eligible_without_previous: "buildCandidates 3 None True = [0, 1, 2]"
  by (simp add: buildCandidates_def upt_rec)

section \<open>A full shuffle cycle\<close>

text \<open>
  Claim C2. For total \<open>\<ge> 2\<close> and a random source with values in \<open>[0, 1)\<close>: starting
  from a shuffle state with an empty queue, total consecutive calls with strategy
  shuffle, one signature and avoidImmediateRepeat false all return, and the indices
  returned are pairwise distinct and are exactly the indices of \<open>[0, total)\<close>. The cycle
  ends with an empty queue under the signature of the calls.
\<close>

theorem shuffle_full_cycle:
  assumes "unit_source random" and "2 \<le> tot" and "queue st = []" and "length wps = nat tot"
  shows "\<exists>xs g'. pick_calls random (shuffle_calls tot sig wps) st g
             = Inr (map JNum xs, \<lparr>queue = [], signature = sig\<rparr>, g')
           \<and> distinct xs \<and> set xs = {0..<tot}"
proof -
  obtain w p rest where wps: "wps = (w, p) # rest"
    using assms(2,4) by (cases wps) auto
  obtain q g' where q: "pickNextIndex tot w Shuffle p False random st sig g
      = Inr (JNum (hd q), \<lparr>queue = tl q, signature = sig\<rparr>, g')"
    "mset q = mset (map int [0..<nat tot])"
    using shuffle_first[OF assms(1,2,3), of w p sig g] by blast
  have lq: "length q = nat tot" using q(2) by (rule mset_indices_length)
  then have qne: "q \<noteq> []" using assms(2) by auto
  let ?st1 = "\<lparr>queue = tl q, signature = sig\<rparr>"
  have lr: "length rest = length (tl q)" using assms(4) lq wps by simp
  have "pick_calls random (shuffle_calls tot sig rest) ?st1 g'
      = Inr (map JNum (take (length rest) (queue ?st1)),
             ?st1\<lparr>queue := drop (length rest) (queue ?st1)\<rparr>, g')"
    by (rule pick_calls_pop[OF assms(2)]) (simp_all add: lr)
  then have rest: "pick_calls random (shuffle_calls tot sig rest) ?st1 g'
      = Inr (map JNum (tl q), \<lparr>queue = [], signature = sig\<rparr>, g')"
    by (simp add: lr)
  have "shuffle_calls tot sig wps = PickCall tot w Shuffle p False sig # shuffle_calls tot sig rest"
    by (simp add: shuffle_calls_def wps)
  then have "pick_calls random (shuffle_calls tot sig wps) st g
      = Inr (JNum (hd q) # map JNum (tl q), \<lparr>queue = [], signature = sig\<rparr>, g')"
    using q(1) rest by simp
  moreover have "JNum (hd q) # map JNum (tl q) = map JNum q" using qne by (cases q) simp_all
  moreover have "distinct q"
    using q(2) mset_eq_imp_distinct_iff[of q "map int [0..<nat tot]"]
    by (simp add: distinct_map inj_on_def)
  moreover have "set q = {0..<tot}"
  proof -
    have "set q = int ` {0..<nat tot}" using mset_eq_setD[OF q(2)] by simp
    also have "\<dots> = {0..<tot}" using assms(2) by (simp add: image_int_atLeastLessThan)
    finally show ?thesis .
  qed
  ultimately show ?thesis by auto
qed

theorem shuffle_full_cycle_witness:
  "unit_source (constant_source (1/10)) \<and> (2::int) \<le> 3
   \<and> queue \<lparr>queue = [], signature = ''''\<rparr> = []
   \<and> length [([1, 1, 1], None), ([1, 1, 1], Some 1), ([1, 1, 1], Some (2::int))] = nat 3
   \<and> (\<exists>xs g'. pick_calls (constant_source (1/10))
                   (shuffle_calls 3 ''x'' [([1, 1, 1], None), ([1, 1, 1], Some 1), ([1, 1, 1], Some 2)])
                   \<lparr>queue = [], signature = ''''\<rparr> 0
                 = Inr (map JNum xs, \<lparr>queue = [], signature = ''x''\<rparr>, g')
               \<and> distinct xs \<and> set xs = {0..<3})"
  using shuffle_full_cycle [of "constant_source (1/10)" 3 "\<lparr>queue = [], signature = ''''\<rparr>"
      "[([1, 1, 1], None), ([1, 1, 1], Some 1), ([1, 1, 1], Some 2)]" "''x''" 0]
  by (simp add: unit_source_def constant_source_def)

section \<open>Repeat avoidance\<close>

text \<open>
  Claim C3. For strategy uniform or weighted, with avoidImmediateRepeat true, total
  greater than 1, a previous index \<open>p\<close> and a random value in \<open>[0, 1)\<close>, the call
  returns an index, and that index is not \<open>p\<close>.
\<close>

theorem avoids_previous_index:
  assumes "0 \<le> fst (random g)" and "fst (random g) < 1" and "1 < tot"
    and "strategy = Uniform \<or> strategy = Weighted"
  shows "\<exists>c. pickNextIndex tot weights strategy (Some p) True random st sig g
               = Inr (JNum c, st, snd (random g)) \<and> c \<noteq> p"
proof -
  have s: "strategy \<noteq> Shuffle" using assms(4) by auto
  have t: "2 \<le> tot" using assms(3) by simp
  obtain c where c: "pickNextIndex tot weights strategy (Some p) True random st sig g
      = Inr (JNum c, st, snd (random g))" "c \<in> set (buildCandidates tot (Some p) True)"
    using pick_from_candidates[of random g tot strategy weights "Some p" True st sig] assms(1,2) t s
    by blast
  then have "c \<noteq> p" using buildCandidates_avoids[OF assms(3)] by auto
  then show ?thesis using c(1) by blast
qed

theorem avoids_previous_index_witness:
  "0 \<le> fst (constant_source 0 (0::nat)) \<and> fst (constant_source 0 (0::nat)) < 1 \<and> (1::int) < 2
   \<and> (Uniform = Uniform \<or> Uniform = Weighted)
   \<and> (\<exists>c. pickNextIndex 2 [1, 1] Uniform (Some 0) True (constant_source 0)
              \<lparr>queue = [], signature = ''''\<rparr> ''a'' 0
            = Inr (JNum c, \<lparr>queue = [], signature = ''''\<rparr>, snd (constant_source 0 (0::nat)))
          \<and> c \<noteq> 0)"
  using avoids_previous_index [of "constant_source 0" 0 2 Uniform "[1, 1]" 0
      "\<lparr>queue = [], signature = ''''\<rparr>" "''a''"]
  by (simp add: constant_source_def)

section \<open>The queue invariant\<close>

text \<open>
  Claim C4. For one call of \<open>pickNextIndex\<close> with any strategy and any total, and a
  random source with values in \<open>[0, 1)\<close>: if the incoming queue holds indices of
  \<open>[0, total)\<close> only, none of them twice, then the call returns and the outgoing queue
  again holds indices of \<open>[0, total)\<close> only, none of them twice.
\<close>

theorem queue_invariant_preserved:
  assumes "unit_source random" and "queue_ok tot (queue st)"
  shows "\<exists>res st' g'. pickNextIndex tot weights strategy previousIndex avoid random st sig g
             = Inr (res, st', g') \<and> queue_ok tot (queue st')"
proof (cases "strategy \<noteq> Shuffle \<or> tot \<le> 1")
  case True
  then show ?thesis
    using pick_leaves_state[of strategy tot weights previousIndex avoid random st sig g] assms(2)
    by blast
next
  case False
  then have t: "2 \<le> tot" and s: "strategy = Shuffle" by auto
  obtain q g' where q: "shuffle_branch tot previousIndex avoid random st sig g
      = Inr (JNum (hd q), \<lparr>queue = tl q, signature = sig\<rparr>, g')"
    "mset q = mset (map int [0..<nat tot]) \<or> mset q = mset (queue st)"
    using shuffle_branch_result[OF assms(1) t, of previousIndex avoid st sig g] by blast
  have "queue_ok tot q"
    using q(2) queue_ok_mset[of q] queue_ok_indices[of tot] assms(2) by blast
  then have "queue_ok tot (tl q)" by (rule queue_ok_tl)
  moreover have "pickNextIndex tot weights strategy previousIndex avoid random st sig g
      = Inr (JNum (hd q), \<lparr>queue = tl q, signature = sig\<rparr>, g')"
    using q(1) t s by (simp add: pickNextIndex_def)
  ultimately show ?thesis by simp
qed

theorem queue_invariant_preserved_witness:
  "unit_source (constant_source (1/2)) \<and> queue_ok 3 (queue \<lparr>queue = [2, 0], signature = ''a''\<rparr>)
   \<and> (\<exists>res st' g'. pickNextIndex 3 [1, 1, 1] Shuffle (Some 2) True (constant_source (1/2))
                       \<lparr>queue = [2, 0], signature = ''a''\<rparr> ''a'' 0
                     = Inr (res, st', g') \<and> queue_ok 3 (queue st'))"
  using queue_invariant_preserved [of "constant_source (1/2)" 3
      "\<lparr>queue = [2, 0], signature = ''a''\<rparr>" "[1, 1, 1]" Shuffle "Some 2" True "''a''" 0]
  by (simp add: unit_source_def constant_source_def queue_ok_def)

section \<open>Determinism of seeded instances\<close>

text \<open>
  Claim C5. Two engine instances are created from the same seed and with equal initial
  shuffle states, each with a closure and a shuffle state object of its own, and both
  are driven with the same sequence of calls (totals, weights, strategies, previous
  indices, signatures), their calls interleaved in any order within one store. Then
  every call returns, both instances receive the same sequence of results, and they
  end with equal shuffle states and equal generator states: those of that sequence of
  calls run on its own from the seed and the initial shuffle state.
\<close>

theorem seeded_instances_agree:
  assumes "calls_of First sched = calls_of Second sched"
  shows "case two_engines sd st init of
           (e1, e2, h) \<Rightarrow>
             (\<exists>out h'. run_schedule e1 e2 sched h = Inr (out, h')
                \<and> results_of First out = results_of Second out
                \<and> shuffle_state h' (shuffle_ref e1) = shuffle_state h' (shuffle_ref e2)
                \<and> closure_state h' (random_ref e1) = closure_state h' (random_ref e2)
                \<and> pick_calls seeded_random (calls_of First sched) st (createSeededRandom sd)
                    = Inr (results_of First out, shuffle_state h' (shuffle_ref e1),
                           closure_state h' (random_ref e1)))"
proof -
  obtain e1 e2 h where eh: "two_engines sd st init = (e1, e2, h)" by (cases "two_engines sd st init")
  note cells = two_engines_cells[OF eh]
  obtain out h' where run: "run_schedule e1 e2 sched h = Inr (out, h')"
    "pick_calls seeded_random (calls_of First sched)
        (shuffle_state h (shuffle_ref e1)) (closure_state h (random_ref e1))
      = Inr (results_of First out, shuffle_state h' (shuffle_ref e1), closure_state h' (random_ref e1))"
    "pick_calls seeded_random (calls_of Second sched)
        (shuffle_state h (shuffle_ref e2)) (closure_state h (random_ref e2))
      = Inr (results_of Second out, shuffle_state h' (shuffle_ref e2), closure_state h' (random_ref e2))"
    using run_schedule_local[OF cells(1,2), of sched h] by blast
  have one: "pick_calls seeded_random (calls_of First sched) st (createSeededRandom sd)
      = Inr (results_of First out, shuffle_state h' (shuffle_ref e1), closure_state h' (random_ref e1))"
    using run(2) cells(3,5) by simp
  have two: "pick_calls seeded_random (calls_of First sched) st (createSeededRandom sd)
      = Inr (results_of Second out, shuffle_state h' (shuffle_ref e2), closure_state h' (random_ref e2))"
    using run(3) cells(4,6) assms by simp
  from one two have "results_of First out = results_of Second out"
    "shuffle_state h' (shuffle_ref e1) = shuffle_state h' (shuffle_ref e2)"
    "closure_state h' (random_ref e1) = closure_state h' (random_ref e2)"
    by simp_all
  then show ?thesis using run(1) one by (simp add: eh)
qed

theorem seeded_instances_agree_witness:
  "calls_of First
       [(First, PickCall 3 [0, 0, 4] Weighted None True ''a''),
        (Second, PickCall 3 [0, 0, 4] Weighted None True ''a''),
        (Second, PickCall 3 [0, 0, 4] Shuffle (Some 2) True ''a''),
        (First, PickCall 3 [0, 0, 4] Shuffle (Some 2) True ''a'')]
     = calls_of Second
       [(First, PickCall 3 [0, 0, 4] Weighted None True ''a''),
        (Second, PickCall 3 [0, 0, 4] Weighted None True ''a''),
        (Second, PickCall 3 [0, 0, 4] Shuffle (Some 2) True ''a''),
        (First, PickCall 3 [0, 0, 4] Shuffle (Some 2) True ''a'')]
   \<and> (case two_engines (SeedNumber 42) \<lparr>queue = [], signature = ''''\<rparr> empty_store of
         (e1, e2, h) \<Rightarrow>
           (\<exists>out h'. run_schedule e1 e2
                  [(First, PickCall 3 [0, 0, 4] Weighted None True ''a''),
                   (Second, PickCall 3 [0, 0, 4] Weighted None True ''a''),
                   (Second, PickCall 3 [0, 0, 4] Shuffle (Some 2) True ''a''),
                   (First, PickCall 3 [0, 0, 4] Shuffle (Some 2) True ''a'')] h
                = Inr (out, h')
              \<and> results_of First out = results_of Second out
              \<and> shuffle_state h' (shuffle_ref e1) = shuffle_state h' (shuffle_ref e2)
              \<and> closure_state h' (random_ref e1) = closure_state h' (random_ref e2)
              \<and> pick_calls seeded_random
                    [PickCall 3 [0, 0, 4] Weighted None True ''a'',
                     PickCall 3 [0, 0, 4] Shuffle (Some 2) True ''a'']
                    \<lparr>queue = [], signature = ''''\<rparr> (createSeededRandom (SeedNumber 42))
                  = Inr (results_of First out, shuffle_state h' (shuffle_ref e1),
                         closure_state h' (random_ref e1))))"
  using seeded_instances_agree [where sd = "SeedNumber 42"
      and st = "\<lparr>queue = [], signature = ''''\<rparr>" and init = empty_store and sched =
      "[(First, PickCall 3 [0, 0, 4] Weighted None True ''a''),
        (Second, PickCall 3 [0, 0, 4] Weighted None True ''a''),
        (Second, PickCall 3 [0, 0, 4] Shuffle (Some 2) True ''a''),
        (First, PickCall 3 [0, 0, 4] Shuffle (Some 2) True ''a'')]"]
  by (simp add: calls_of_def)

text \<open>
  The agreement rests on the cells of the two instances being distinct. Two instances
  that share one shuffle state object, or one closure, receive different results from
  the same calls (seed 1, total 2, strategy shuffle), where two separate instances both
  receive index 0.
\<close>

lemma shared_shuffle_state_interferes:
  "(case two_engines (SeedNumber 1) \<lparr>queue = [], signature = ''''\<rparr> empty_store of
      (e1, e2, h) \<Rightarrow>
        (case run_schedule e1 (e2\<lparr>shuffle_ref := shuffle_ref e1\<rparr>)
                [(First, PickCall 2 [] Shuffle None False ''a''),
                 (Second, PickCall 2 [] Shuffle None False ''a'')] h of
           Inl f \<Rightarrow> []
         | Inr (out, h') \<Rightarrow> out))
   = [(First, JNum 0), (Second, JNum 1)]"
  by (simp add: two_engines_def new_engine_def new_seeded_random_def new_shuffle_state_def
      empty_store_def engine_call_def pickNextIndex_def shuffle_branch_def adopt_signature_def
      refill_queue_def swap_front_def regenerate_queue_def shift_queue_def shuffledIndices_def
      seeded_random_def round_double_def createSeededRandom_def hashSeed_def to_uint32_def
      upt_rec)

lemma shared_random_source_interferes:
  "(case two_engines (SeedNumber 1) \<lparr>queue = [], signature = ''''\<rparr> empty_store of
      (e1, e2, h) \<Rightarrow>
        (case run_schedule e1 (e2\<lparr>random_ref := random_ref e1\<rparr>)
                [(First, PickCall 2 [] Shuffle None False ''a''),
                 (Second, PickCall 2 [] Shuffle None False ''a'')] h of
           Inl f \<Rightarrow> []
         | Inr (out, h') \<Rightarrow> out))
   = [(First, JNum 0), (Second, JNum 1)]"
  by (simp add: two_engines_def new_engine_def new_seeded_random_def new_shuffle_state_def
      empty_store_def engine_call_def pickNextIndex_def shuffle_branch_def adopt_signature_def
      refill_queue_def swap_front_def regenerate_queue_def shift_queue_def shuffledIndices_def
      seeded_random_def round_double_def createSeededRandom_def hashSeed_def to_uint32_def
      upt_rec)

lemma separate_instances_example:
  "(case two_engines (SeedNumber 1) \<lparr>queue = [], signature = ''''\<rparr> empty_store of
      (e1, e2, h) \<Rightarrow>
        (case run_schedule e1 e2
                [(First, PickCall 2 [] Shuffle None False ''a''),
                 (Second, PickCall 2 [] Shuffle None False ''a'')] h of
           Inl f \<Rightarrow> []
         | Inr (out, h') \<Rightarrow> out))
   = [(First, JNum 0), (Second, JNum 0)]"
  by (simp add: two_engines_def new_engine_def new_seeded_random_def new_shuffle_state_def
      empty_store_def engine_call_def pickNextIndex_def shuffle_branch_def adopt_signature_def
      refill_queue_def swap_front_def regenerate_queue_def shift_queue_def shuffledIndices_def
      seeded_random_def round_double_def createSeededRandom_def hashSeed_def to_uint32_def
      upt_rec)

section \<open>Boundary behaviour\<close>

text \<open>
  Claim C6. For every total \<open>\<le> 0\<close>, with any strategy, weights, previous index and
  state, \<open>pickNextIndex\<close> returns \<open>null\<close> (a value, not a fault); for total \<open>= 1\<close> it
  returns index 0. In both cases the shuffle state and the random source are left as
  they were.
\<close>

theorem pickNextIndex_boundary:
  "(tot \<le> 0 \<longrightarrow> pickNextIndex tot weights strategy previousIndex avoid random st sig g
        = Inr (JNull, st, g))
   \<and> pickNextIndex 1 weights strategy previousIndex avoid random st sig g = Inr (JNum 0, st, g)"
  by (simp add: pickNextIndex_def)

theorem pickNextIndex_boundary_witness:
  "(-2 :: int) \<le> 0
   \<and> pickNextIndex (-2) [1, 1] Shuffle (Some 0) True (constant_source (1/2))
        \<lparr>queue = [0], signature = ''a''\<rparr> ''b'' 0
      = Inr (JNull, \<lparr>queue = [0], signature = ''a''\<rparr>, 0)
   \<and> pickNextIndex 1 [1, 1] Shuffle (Some 0) True (constant_source (1/2))
        \<lparr>queue = [0], signature = ''a''\<rparr> ''b'' 0
      = Inr (JNum 0, \<lparr>queue = [0], signature = ''a''\<rparr>, 0)"
  using pickNextIndex_boundary [of "-2" "[1, 1]" Shuffle "Some 0" True "constant_source (1/2)"
      "\<lparr>queue = [0], signature = ''a''\<rparr>" "''b''" 0]
  by simp

section \<open>Frame condition\<close>

text \<open>
  Claim C7. A call with strategy uniform or weighted returns with the shuffle state it
  was given (queue and signature unchanged); the other inputs are values that the model
  cannot change. Hence a call whose outgoing state differs from the incoming one has
  strategy shuffle.
\<close>

theorem pickNextIndex_frame:
  "(strategy \<noteq> Shuffle \<longrightarrow>
      (\<exists>res g'. pickNextIndex tot weights strategy previousIndex avoid random st sig g
         = Inr (res, st, g')))
   \<and> (\<forall>res st' g'. pickNextIndex tot weights strategy previousIndex avoid random st sig g
         = Inr (res, st', g') \<and> st' \<noteq> st \<longrightarrow> strategy = Shuffle)"
proof -
  have a: "strategy \<noteq> Shuffle \<Longrightarrow>
      \<exists>res g'. pickNextIndex tot weights strategy previousIndex avoid random st sig g
         = Inr (res, st, g')"
    using pick_leaves_state[of strategy tot weights previousIndex avoid random st sig g] by simp
  then show ?thesis by fastforce
qed

theorem pickNextIndex_frame_witness:
  "Weighted \<noteq> Shuffle
   \<and> (\<exists>res g'. pickNextIndex 3 [0, 0, 4] Weighted (Some 2) True (constant_source (1/5))
         \<lparr>queue = [1, 0], signature = ''a''\<rparr> ''b'' 0
       = Inr (res, \<lparr>queue = [1, 0], signature = ''a''\<rparr>, g'))"
  using pickNextIndex_frame [of Weighted 3 "[0, 0, 4]" "Some 2" True "constant_source (1/5)"
      "\<lparr>queue = [1, 0], signature = ''a''\<rparr>" "''b''" 0]
  by simp

section \<open>The range of the seeded stream\<close>

text \<open>
  Claim C8. For every seed (a string or a number) and every position \<open>n\<close>, the value
  that call number \<open>n\<close> of the function returned by \<open>createSeededRandom\<close> produces is at
  least 0 and less than 1.
\<close>

theorem seeded_value_unit: "0 \<le> seeded_value sd n \<and> seeded_value sd n < 1"
  unfolding seeded_value_def by (rule seeded_random_unit)

section \<open>When the shuffle state is written\<close>

text \<open>
  Claim C9 says that every call with strategy shuffle mutates the shuffle state, for
  any total. With total 1 (and likewise total \<open>\<le> 0\<close>) the call returns before the
  shuffle branch: the state comes back as it was, the call's signature is not adopted
  and the random source is not called.
\<close>

theorem shuffle_untouched_for_single_candidate:
  "pickNextIndex 1 [1] Shuffle None False (constant_source (1/2))
       \<lparr>queue = [], signature = ''''\<rparr> ''a'' 0
     = Inr (JNum 0, \<lparr>queue = [], signature = ''''\<rparr>, 0)"
  by (simp add: pickNextIndex_def)

text \<open>
  Claim C9, amended. With a random source with values in \<open>[0, 1)\<close>, a call with
  strategy shuffle and total \<open>\<ge> 2\<close> writes the shuffle state: it stores the call's
  signature and removes the returned index from the front of a working queue \<open>q\<close>,
  which is the incoming queue, or the incoming queue with its front exchanged with one
  later position \<open>k\<close>, or a fresh permutation of \<open>[0, total)\<close>. The outgoing state
  differs from the incoming one, except when total is 2, the signature is unchanged and
  the incoming queue holds just the previous index under avoidImmediateRepeat: the
  regenerated queue may then, after the removal, hold the same single index again. A
  call with total \<open>\<le> 1\<close> or with another strategy leaves the state as it was.
\<close>

theorem shuffle_state_written:
  assumes "unit_source random"
  shows "(2 \<le> tot \<longrightarrow>
           (\<exists>q g'. q \<noteq> []
              \<and> pickNextIndex tot weights Shuffle previousIndex avoid random st sig g
                  = Inr (JNum (hd q), \<lparr>queue = tl q, signature = sig\<rparr>, g')
              \<and> (q = queue st
                  \<or> (\<exists>k. 0 < k \<and> k < length (queue st)
                          \<and> q = (queue st)[0 := queue st ! k, k := queue st ! 0])
                  \<or> mset q = mset (map int [0..<nat tot]))
              \<and> (\<lparr>queue = tl q, signature = sig\<rparr> \<noteq> st
                  \<or> (tot = 2 \<and> avoid \<and> signature st = sig
                      \<and> (\<exists>p. previousIndex = Some p \<and> queue st = [p])))))
         \<and> (tot \<le> 1 \<or> strategy \<noteq> Shuffle \<longrightarrow>
           (\<exists>res g'. pickNextIndex tot weights strategy previousIndex avoid random st sig g
              = Inr (res, st, g')))"
proof (intro conjI impI)
  assume t: "2 \<le> tot"
  let ?regen = "avoid \<and> length (queue st) = 1 \<and> front_is_previous (queue st) previousIndex"
  let ?corner = "tot = 2 \<and> avoid \<and> signature st = sig
      \<and> (\<exists>p. previousIndex = Some p \<and> queue st = [p])"
  have pick: "pickNextIndex tot weights Shuffle previousIndex avoid random st sig g
      = shuffle_branch tot previousIndex avoid random st sig g"
    using t by (simp add: pickNextIndex_def)
  show "\<exists>q g'. q \<noteq> []
              \<and> pickNextIndex tot weights Shuffle previousIndex avoid random st sig g
                  = Inr (JNum (hd q), \<lparr>queue = tl q, signature = sig\<rparr>, g')
              \<and> (q = queue st
                  \<or> (\<exists>k. 0 < k \<and> k < length (queue st)
                          \<and> q = (queue st)[0 := queue st ! k, k := queue st ! 0])
                  \<or> mset q = mset (map int [0..<nat tot]))
              \<and> (\<lparr>queue = tl q, signature = sig\<rparr> \<noteq> st \<or> ?corner)"
  proof (cases "signature st = sig \<and> queue st \<noteq> [] \<and> \<not> ?regen")
    case True
    then obtain q g' where q: "shuffle_branch tot previousIndex avoid random st sig g
        = Inr (JNum (hd q), \<lparr>queue = tl q, signature = sig\<rparr>, g')" "q \<noteq> []"
      "q = queue st \<or> (\<exists>k. 0 < k \<and> k < length (queue st)
          \<and> q = (queue st)[0 := queue st ! k, k := queue st ! 0])"
      using shuffle_branch_kept[OF assms, of st sig avoid previousIndex tot g] by blast
    have "length q = length (queue st)" using q(3) by auto
    then have "length (tl q) \<noteq> length (queue st)" using q(2) by (cases q) auto
    then have "\<lparr>queue = tl q, signature = sig\<rparr> \<noteq> st" by auto
    then show ?thesis using q pick by auto
  next
    case False
    obtain q g' where q: "shuffle_branch tot previousIndex avoid random st sig g
        = Inr (JNum (hd q), \<lparr>queue = tl q, signature = sig\<rparr>, g')" "q \<noteq> []"
      "(mset q = mset (map int [0..<nat tot]) \<and> (signature st \<noteq> sig \<or> queue st = [] \<or> ?regen))
       \<or> (mset q = mset (queue st) \<and> signature st = sig \<and> \<not> ?regen)"
      using shuffle_branch_result[OF assms t, of previousIndex avoid st sig g] by blast
    have "\<not> (mset q = mset (queue st) \<and> signature st = sig \<and> \<not> ?regen)"
    proof
      assume b: "mset q = mset (queue st) \<and> signature st = sig \<and> \<not> ?regen"
      then have "queue st \<noteq> []" using q(2) by auto
      then show False using b False by blast
    qed
    then have m: "mset q = mset (map int [0..<nat tot])" using q(3) by blast
    then have lq: "length q = nat tot" by (rule mset_indices_length)
    have "length (tl q) = nat tot - 1" using lq by simp
    then have ltl: "0 < length (tl q)" "tot \<noteq> 2 \<Longrightarrow> length (tl q) \<noteq> 1" using t by auto
    have "\<lparr>queue = tl q, signature = sig\<rparr> \<noteq> st \<or> ?corner"
    proof (cases "signature st = sig")
      case sg: False
      then show ?thesis by auto
    next
      case sg: True
      show ?thesis
      proof (cases "queue st = []")
        case True
        have "tl q \<noteq> []" using ltl(1) by (rule length_greater_0_conv[THEN iffD1])
        then have "tl q \<noteq> queue st" using True by simp
        then show ?thesis by auto
      next
        case ne: False
        then have rg: ?regen using False sg by blast
        then obtain p where p: "previousIndex = Some p" "queue st = [p]"
          by (cases previousIndex; cases "queue st") (auto simp add: front_is_previous_def)
        show ?thesis
        proof (cases "tot = 2")
          case True
          then show ?thesis using rg p sg by simp
        next
          case False
          then have "length (tl q) \<noteq> length (queue st)" using ltl(2) p by simp
          then show ?thesis by auto
        qed
      qed
    qed
    then show ?thesis using q(1,2) m pick by auto
  qed
next
  assume "tot \<le> 1 \<or> strategy \<noteq> Shuffle"
  then show "\<exists>res g'. pickNextIndex tot weights strategy previousIndex avoid random st sig g
              = Inr (res, st, g')"
    using pick_leaves_state[of strategy tot weights previousIndex avoid random st sig g] by blast
qed

theorem shuffle_state_written_witness:
  "unit_source (constant_source (1/10)) \<and> (2::int) \<le> 3
   \<and> (\<exists>q g'. q \<noteq> []
         \<and> pickNextIndex 3 [1, 1, 1] Shuffle (Some 1) True (constant_source (1/10))
              \<lparr>queue = [1, 2], signature = ''x''\<rparr> ''x'' 0
             = Inr (JNum (hd q), \<lparr>queue = tl q, signature = ''x''\<rparr>, g')
         \<and> (q = [1, 2]
             \<or> (\<exists>k. 0 < k \<and> k < length [1, 2 :: int] \<and> q = [1, 2][0 := [1, 2] ! k, k := [1, 2] ! 0])
             \<or> mset q = mset (map int [0..<nat 3]))
         \<and> \<lparr>queue = tl q, signature = ''x''\<rparr> \<noteq> \<lparr>queue = [1, 2], signature = ''x''\<rparr>)
   \<and> Uniform \<noteq> Shuffle
   \<and> (\<exists>res g'. pickNextIndex 3 [1, 1, 1] Uniform (Some 1) True (constant_source (1/10))
              \<lparr>queue = [1, 2], signature = ''x''\<rparr> ''x'' 0
             = Inr (res, \<lparr>queue = [1, 2], signature = ''x''\<rparr>, g'))"
  using shuffle_state_written [of "constant_source (1/10)" 3 "[1, 1, 1]" "Some 1" True
      "\<lparr>queue = [1, 2], signature = ''x''\<rparr>" "''x''" 0 Uniform]
  by (simp add: unit_source_def constant_source_def)

text \<open>
  A corrective swap: the front of the queue \<open>[1, 2]\<close> is the previous index 1, so it is
  exchanged with position 1 and index 2 is returned.
\<close>

lemma shuffle_corrective_swap_example:
  "pickNextIndex 3 [1, 1, 1] Shuffle (Some 1) True (constant_source (1/10))
       \<lparr>queue = [1, 2], signature = ''x''\<rparr> ''x'' 0
     = Inr (JNum 2, \<lparr>queue = [1], signature = ''x''\<rparr>, 1)"
  by (simp add: pickNextIndex_def shuffle_branch_def adopt_signature_def refill_queue_def
      swap_front_def regenerate_queue_def front_is_previous_def shift_queue_def
      constant_source_def)

text \<open>
  The exception is real: with total 2, the queue \<open>[0]\<close> and previous index 0, the queue
  is regenerated as \<open>[1, 0]\<close>, index 1 is returned, and the queue left is \<open>[0]\<close> again.
\<close>

lemma shuffle_regenerated_queue_same_value:
  "pickNextIndex 2 [1, 1] Shuffle (Some 0) True (constant_source 0)
       \<lparr>queue = [0], signature = ''a''\<rparr> ''a'' 0
     = Inr (JNum 1, \<lparr>queue = [0], signature = ''a''\<rparr>, 1)"
  by (simp add: pickNextIndex_def shuffle_branch_def adopt_signature_def refill_queue_def
      swap_front_def regenerate_queue_def front_is_previous_def shift_queue_def
      shuffledIndices_def constant_source_def upt_rec)

section \<open>The result is a number unless the pool is empty\<close>

text \<open>
  Claim C10. With a random source with values in \<open>[0, 1)\<close>, every call returns; for
  total \<open>\<ge> 1\<close> the result is a number, so \<open>null\<close> is returned exactly when total
  \<open>\<le> 0\<close>. The set of candidates is not empty for total \<open>\<ge> 2\<close>, so the fallback to
  the previous index is never taken. This holds for every queue of numbers, in
  particular for the queues of the claim (indices of \<open>[0, total)\<close> without duplicates).
\<close>

theorem result_is_number:
  assumes "unit_source random"
  shows "\<exists>res st' g'. pickNextIndex tot weights strategy previousIndex avoid random st sig g
             = Inr (res, st', g')
           \<and> (res = JNull \<longleftrightarrow> tot \<le> 0)
           \<and> (1 \<le> tot \<longrightarrow> (\<exists>n. res = JNum n))
           \<and> (2 \<le> tot \<longrightarrow> buildCandidates tot previousIndex avoid \<noteq> [])"
proof -
  consider "tot \<le> 0" | "tot = 1" | "2 \<le> tot" "strategy = Shuffle" | "2 \<le> tot" "strategy \<noteq> Shuffle"
    by linarith
  then show ?thesis
  proof cases
    case 1
    then show ?thesis by (simp add: pickNextIndex_def)
  next
    case 2
    then show ?thesis by (simp add: pickNextIndex_def)
  next
    case 3
    obtain q g' where "shuffle_branch tot previousIndex avoid random st sig g
        = Inr (JNum (hd q), \<lparr>queue = tl q, signature = sig\<rparr>, g')"
      using shuffle_branch_result[OF assms 3(1), of previousIndex avoid st sig g] by blast
    then show ?thesis using 3 buildCandidates_nonempty[OF 3(1)] by (simp add: pickNextIndex_def)
  next
    case 4
    have u: "0 \<le> fst (random g)" "fst (random g) < 1" using assms by (simp_all add: unit_source_def)
    obtain c where "pickNextIndex tot weights strategy previousIndex avoid random st sig g
        = Inr (JNum c, st, snd (random g))"
      using pick_from_candidates[of random g tot strategy weights previousIndex avoid st sig] u 4
      by blast
    then show ?thesis using 4(1) buildCandidates_nonempty[OF 4(1)] by simp
  qed
qed

theorem result_is_number_witness:
  "unit_source (constant_source (1/2)) \<and> (1::int) \<le> 3 \<and> (2::int) \<le> 3
   \<and> (\<exists>res st' g'. pickNextIndex 3 [0, 0, 0] Weighted (Some 1) True (constant_source (1/2))
                       \<lparr>queue = [], signature = ''''\<rparr> ''a'' 0
                     = Inr (res, st', g')
         \<and> res \<noteq> JNull \<and> (\<exists>n. res = JNum n))
   \<and> buildCandidates 3 (Some 1) True \<noteq> []"
  using result_is_number [of "constant_source (1/2)" 3 "[0, 0, 0]" Weighted "Some 1" True
      "\<lparr>queue = [], signature = ''''\<rparr>" "''a''" 0]
  by (auto simp add: unit_source_def constant_source_def)

end
